theory Spec2Isabelle
  imports Complex_Main "HOL-Library.Product_Lexorder"
begin

section \<open>Array values\<close>

text \<open>
  The arrays of \<^verbatim>\<open>mmr.py\<close> and \<^verbatim>\<open>base.py\<close> hold floating-point numbers. A finite
  number is modelled by the real it denotes, with exact arithmetic (no rounding, no
  overflow); the three special values keep their IEEE behaviour, because the code writes
  \<^verbatim>\<open>-jnp.inf\<close> and \<^verbatim>\<open>-np.inf\<close> into its arrays and then computes with them.
\<close>

datatype xreal = NaN | NInf | Fin real | PInf

text \<open>The failures the modelled library calls can raise, named by their cause.\<close>

datatype error =
    EmptyReduction    \<comment> \<open>\<^verbatim>\<open>argmax\<close> or \<^verbatim>\<open>max\<close> over no element\<close>
  | ShapeMismatch     \<comment> \<open>operands that do not broadcast\<close>
  | IndexOutOfBounds  \<comment> \<open>an index or \<^verbatim>\<open>kth\<close> outside the array, an index into an empty axis\<close>
  | ShapeNotInteger   \<comment> \<open>a matrix shape that is not a pair of integers\<close>
  | IntOverflow       \<comment> \<open>a Python number that does not fit the target integer type\<close>
  | EmptyTable        \<comment> \<open>no row to take a maximum code from\<close>
  | SplitError        \<comment> \<open>raised by \<^verbatim>\<open>train_test_split\<close>\<close>
  | ScorerError       \<comment> \<open>raised by the concrete \<^verbatim>\<open>predict\<close>\<close>

text \<open>\<^verbatim>\<open>a * x\<close> for a Python float \<open>a\<close> and an array element \<open>x\<close>.\<close>

fun smul :: "real \<Rightarrow> xreal \<Rightarrow> xreal" where
  "smul a NaN = NaN"
| "smul a (Fin b) = Fin (a * b)"
| "smul a PInf = (if a = 0 then NaN else if 0 < a then PInf else NInf)"
| "smul a NInf = (if a = 0 then NaN else if 0 < a then NInf else PInf)"

fun xsub :: "xreal \<Rightarrow> xreal \<Rightarrow> xreal" where
  "xsub NaN y = NaN"
| "xsub x NaN = NaN"
| "xsub (Fin a) (Fin b) = Fin (a - b)"
| "xsub (Fin a) PInf = NInf"
| "xsub (Fin a) NInf = PInf"
| "xsub PInf PInf = NaN"
| "xsub PInf y = PInf"
| "xsub NInf NInf = NaN"
| "xsub NInf y = NInf"

fun xneg :: "xreal \<Rightarrow> xreal" where
  "xneg NaN = NaN"
| "xneg NInf = PInf"
| "xneg (Fin a) = Fin (- a)"
| "xneg PInf = NInf"

text \<open>The comparison \<^verbatim>\<open><\<close> of two array elements; it is false as soon as one is NaN.\<close>

fun xlt :: "xreal \<Rightarrow> xreal \<Rightarrow> bool" where
  "xlt NaN y = False"
| "xlt x NaN = False"
| "xlt NInf NInf = False"
| "xlt NInf y = True"
| "xlt (Fin a) (Fin b) = (a < b)"
| "xlt (Fin a) PInf = True"
| "xlt (Fin a) NInf = False"
| "xlt PInf y = False"

text \<open>The binary step of \<^verbatim>\<open>jnp.max\<close>: NaN propagates.\<close>

definition xmax :: "xreal \<Rightarrow> xreal \<Rightarrow> xreal" where
  "xmax a b = (if a = NaN \<or> b = NaN then NaN else if xlt a b then b else a)"

text \<open>\<^verbatim>\<open>jnp.max\<close> of a one-dimensional array; a zero-size reduction raises.\<close>

definition amax :: "xreal list \<Rightarrow> error + xreal" where
  "amax xs = (case xs of [] \<Rightarrow> Inl EmptyReduction | x # ys \<Rightarrow> Inr (foldl xmax x ys))"

text \<open>
  A two-dimensional array is the list of its rows, all of one length; the list without
  rows stands for the empty array of shape \<open>(0, 0)\<close>.
\<close>

definition ncols :: "xreal list list \<Rightarrow> nat" where
  "ncols m = (case m of [] \<Rightarrow> 0 | r # rs \<Rightarrow> length r)"

text \<open>
  \<^verbatim>\<open>jnp.max(m, axis=1)\<close> reduces every row and fails when the rows have no element.
\<close>

fun rows_max :: "xreal list list \<Rightarrow> error + xreal list" where
  "rows_max [] = Inr []"
| "rows_max (r # rs) =
     (case amax r of
        Inl e \<Rightarrow> Inl e
      | Inr m \<Rightarrow> (case rows_max rs of Inl e \<Rightarrow> Inl e | Inr ms \<Rightarrow> Inr (m # ms)))"

definition max_axis1 :: "xreal list list \<Rightarrow> error + xreal list" where
  "max_axis1 m = (if m = [] then Inl EmptyReduction else rows_max m)"

text \<open>
  \<^verbatim>\<open>jnp.argmax\<close>: one pass that keeps the index of the best element so far and replaces
  it only by a strictly greater element, or by the first NaN (a NaN counts as the
  maximum). So the first occurrence of the maximum wins.
\<close>

definition better :: "xreal \<Rightarrow> xreal \<Rightarrow> bool" where
  "better x b = (b \<noteq> NaN \<and> (x = NaN \<or> xlt b x))"

fun argmax_from :: "nat \<Rightarrow> nat \<Rightarrow> xreal \<Rightarrow> xreal list \<Rightarrow> nat" where
  "argmax_from i bi b [] = bi"
| "argmax_from i bi b (x # xs) =
     (if better x b then argmax_from (Suc i) i x xs else argmax_from (Suc i) bi b xs)"

definition argmax :: "xreal list \<Rightarrow> error + nat" where
  "argmax xs = (case xs of [] \<Rightarrow> Inl EmptyReduction | x # ys \<Rightarrow> Inr (argmax_from 1 0 x ys))"

text \<open>
  Elementwise subtraction of two one-dimensional arrays with numpy broadcasting: equal
  lengths, or one operand of length one.
\<close>

definition broadcast_sub :: "xreal list \<Rightarrow> xreal list \<Rightarrow> error + xreal list" where
  "broadcast_sub xs ys =
     (if length xs = length ys then Inr (map2 xsub xs ys)
      else if length ys = 1 then Inr (map (\<lambda>x. xsub x (hd ys)) xs)
      else if length xs = 1 then Inr (map (\<lambda>y. xsub (hd xs) y) ys)
      else Inl ShapeMismatch)"

text \<open>
  \<^verbatim>\<open>a.at[idx].set(v)\<close>. JAX drops an update whose index is out of bounds, which is what
  \<open>list_update\<close> does. (Inside the loop of \<^verbatim>\<open>rerank\<close> the array has at least two
  elements.)
\<close>

definition set_at :: "nat list \<Rightarrow> xreal \<Rightarrow> xreal list \<Rightarrow> xreal list" where
  "set_at idx v xs = foldl (\<lambda>a i. a[i := v]) xs idx"

text \<open>
  \<^verbatim>\<open>m.at[:, j].set(-jnp.inf)\<close>. JAX refuses every index into an axis of size zero, so a
  matrix without columns raises; on any other matrix an index beyond the last column is
  dropped.
\<close>

definition set_col :: "nat \<Rightarrow> xreal list list \<Rightarrow> xreal list list" where
  "set_col j m = map (\<lambda>row. row[j := NInf]) m"

definition mask_col :: "nat \<Rightarrow> xreal list list \<Rightarrow> error + xreal list list" where
  "mask_col j m = (if ncols m = 0 then Inl IndexOutOfBounds else Inr (set_col j m))"

text \<open>
  The position of an array value in the order that \<^verbatim>\<open>argmax\<close> and a sort use: negative
  infinity, the finite values, positive infinity, and NaN last.
\<close>

fun xord :: "xreal \<Rightarrow> nat \<times> real" where
  "xord NInf = (0, 0)"
| "xord (Fin r) = (1, r)"
| "xord PInf = (2, 0)"
| "xord NaN = (3, 0)"

section \<open>Maximal marginal relevance\<close>

text \<open>
  \<^verbatim>\<open>new_selection\<close> starts as the zero-dimensional result of \<^verbatim>\<open>jnp.argmax\<close> and becomes
  a one-dimensional array at the first \<^verbatim>\<open>jnp.append\<close>, which flattens its operands.
\<close>

datatype selection = Scalar nat | Vec "nat list"

fun ravel :: "selection \<Rightarrow> nat list" where
  "ravel (Scalar i) = [i]"
| "ravel (Vec is) = is"

text \<open>
  The body of \<^verbatim>\<open>for _ in range(k - 1)\<close> in \<^verbatim>\<open>MaximalMarginalRelevance.rerank\<close>; the
  first argument counts the iterations that remain.
\<close>

fun mmr_loop ::
  "nat \<Rightarrow> real \<Rightarrow> xreal list \<Rightarrow> selection \<Rightarrow> xreal list list \<Rightarrow> error + selection" where
  "mmr_loop 0 lbd quality_scores new_selection similarity_scores = Inr new_selection"
| "mmr_loop (Suc m) lbd quality_scores new_selection similarity_scores =
     (case max_axis1 similarity_scores of
        Inl e \<Rightarrow> Inl e
      | Inr mx \<Rightarrow>
         (case broadcast_sub (map (smul lbd) quality_scores) (map (smul (1 - lbd)) mx) of
            Inl e \<Rightarrow> Inl e
          | Inr scores \<Rightarrow>
             (case argmax (set_at (ravel new_selection) NInf scores) of
                Inl e \<Rightarrow> Inl e
              | Inr j \<Rightarrow>
                  (case mask_col j similarity_scores of
                     Inl e \<Rightarrow> Inl e
                   | Inr masked \<Rightarrow>
                       mmr_loop m lbd quality_scores (Vec (ravel new_selection @ [j]))
                         masked))))"

definition rerank :: "real \<Rightarrow> xreal list \<Rightarrow> xreal list list \<Rightarrow> int \<Rightarrow> error + selection" where
  "rerank lbd quality_scores similarity_scores k =
     (let n = int (length quality_scores);
          k' = min k n
      in case argmax quality_scores of
           Inl e \<Rightarrow> Inl e
         | Inr s \<Rightarrow>
             (case mask_col s similarity_scores of
                Inl e \<Rightarrow> Inl e
              | Inr masked \<Rightarrow> mmr_loop (nat (k' - 1)) lbd quality_scores (Scalar s) masked))"

section \<open>Interaction data\<close>

text \<open>
  \<^verbatim>\<open>pd.Categorical(values).codes\<close>, for a column whose values are present and mutually
  comparable: pandas takes the sorted distinct values as categories, and the code of a
  value is its position among the categories.
\<close>

definition categories :: "'a::linorder list \<Rightarrow> 'a list" where
  "categories vals = sort (remdups vals)"

fun index_of :: "'a list \<Rightarrow> 'a \<Rightarrow> nat" where
  "index_of [] x = 0"
| "index_of (y # ys) x = (if x = y then 0 else Suc (index_of ys x))"

definition codes :: "'a::linorder list \<Rightarrow> nat list" where
  "codes vals = map (index_of (categories vals)) vals"

text \<open>
  The codes in first-seen order, as the specification words them: the \<open>i\<close>-th distinct
  value met when scanning from the top receives code \<open>i\<close>. Not what the code computes.
\<close>

definition first_seen_codes :: "'a list \<Rightarrow> nat list" where
  "first_seen_codes vals = map (index_of (rev (remdups (rev vals)))) vals"

text \<open>A row of the normalised table \<^verbatim>\<open>df_interaction\<close>.\<close>

record row =
  userId :: nat
  itemId :: nat
  interaction :: real

text \<open>
  \<^verbatim>\<open>BaseRecommender.get_interaction\<close>. The input is the first three columns of the raw
  table, one triple per row.
\<close>

definition get_interaction :: "('u::linorder \<times> 'i::linorder \<times> real) list \<Rightarrow> row list" where
  "get_interaction table =
     (let users = codes (map fst table);
          items = codes (map (fst \<circ> snd) table)
      in map (\<lambda>(u, i, v). \<lparr>userId = u, itemId = i, interaction = v\<rparr>)
           (zip users (zip items (map (snd \<circ> snd) table))))"

text \<open>\<^verbatim>\<open>int(x)\<close> of Python and the C cast to an integer: truncation toward zero.\<close>

definition py_int :: "real \<Rightarrow> int" where
  "py_int x = (if 0 \<le> x then \<lfloor>x\<rfloor> else \<lceil>x\<rceil>)"

text \<open>
  The dtype of the interaction column of the input table. pandas holds integers in an
  \<^verbatim>\<open>int64\<close> column, floating-point numbers in a \<^verbatim>\<open>float64\<close> column, and Python numbers of
  any kind in an \<^verbatim>\<open>object\<close> column. The values are modelled by the reals they denote.
\<close>

datatype dtype = Int64 | Float64 | Object

text \<open>The low 32 bits of an integer, read as a signed number.\<close>

definition wrap_int32 :: "int \<Rightarrow> int" where
  "wrap_int32 t = (t + 2 ^ 31) mod 2 ^ 32 - 2 ^ 31"

text \<open>
  The conversion of an interaction value to \<^verbatim>\<open>int32\<close> that \<^verbatim>\<open>coo_matrix\<close> performs for
  \<^verbatim>\<open>dtype="int32"\<close>. An \<^verbatim>\<open>int64\<close> value keeps its low 32 bits. A Python number of an
  \<^verbatim>\<open>object\<close> column is truncated toward zero and refused when the result does not fit. A
  \<^verbatim>\<open>float64\<close> value is truncated toward zero; when the result does not fit, C leaves the
  cast undefined, and the model returns what the x86-64 conversion gives.
\<close>

definition astype_int32 :: "dtype \<Rightarrow> real \<Rightarrow> error + int" where
  "astype_int32 dt x =
     (let t = py_int x;
          fits = (- (2 ^ 31) \<le> t \<and> t < 2 ^ 31)
      in case dt of
           Int64 \<Rightarrow> Inr (wrap_int32 t)
         | Float64 \<Rightarrow> Inr (if fits then t else - (2 ^ 31))
         | Object \<Rightarrow> (if fits then Inr t else Inl IntOverflow))"

fun astype_all :: "dtype \<Rightarrow> real list \<Rightarrow> error + int list" where
  "astype_all dt [] = Inr []"
| "astype_all dt (x # xs) =
     (case astype_int32 dt x of
        Inl e \<Rightarrow> Inl e
      | Inr v \<Rightarrow> (case astype_all dt xs of Inl e \<Rightarrow> Inl e | Inr vs \<Rightarrow> Inr (v # vs)))"

text \<open>A sparse matrix in coordinate format: its shape and three parallel arrays.\<close>

record coo =
  coo_shape :: "nat \<times> nat"
  coo_row :: "nat list"
  coo_col :: "nat list"
  coo_data :: "int list"

text \<open>
  \<^verbatim>\<open>sps.coo_matrix((data, (row, col)), (self.n_users, self.n_items), "int32")\<close>. The two
  numbers of the shape come from \<^verbatim>\<open>self.df_interaction.max()[:2] + 1\<close>, where pandas
  takes the maxima of all three columns in their common dtype: with a \<^verbatim>\<open>float64\<close>
  interaction column they are floats, and scipy refuses a shape that is not a pair of
  integers. It then converts the values, and rejects an index that exceeds the shape.
\<close>

definition coo_matrix :: "dtype \<Rightarrow> row list \<Rightarrow> nat \<times> nat \<Rightarrow> error + coo" where
  "coo_matrix dt rows sh =
     (if dt = Float64 then Inl ShapeNotInteger
      else
        case astype_all dt (map interaction rows) of
          Inl e \<Rightarrow> Inl e
        | Inr vals \<Rightarrow>
            if \<exists>r\<in>set rows. fst sh \<le> userId r \<or> snd sh \<le> itemId r then Inl IndexOutOfBounds
            else Inr \<lparr>coo_shape = sh, coo_row = map userId rows, coo_col = map itemId rows,
                      coo_data = vals\<rparr>)"

text \<open>
  \<^verbatim>\<open>sklearn.model_selection.train_test_split(dataframe, test_size, random_state=42)\<close> is
  a parameter of the model: it returns the train rows and the test rows, or fails.
\<close>

type_synonym splitter = "row list \<Rightarrow> real \<Rightarrow> error + row list \<times> row list"

text \<open>The \<^verbatim>\<open>if\<close>/\<^verbatim>\<open>else\<close> of \<^verbatim>\<open>process_interaction\<close> that chooses train and test rows.\<close>

definition split_rows ::
  "splitter \<Rightarrow> row list \<Rightarrow> real \<Rightarrow> bool \<Rightarrow> error + row list \<times> row list" where
  "split_rows train_test_split dataframe test_size random_split =
     (if \<not> random_split \<and> test_size > 1
      then Inr (drop (nat (py_int test_size)) dataframe, take (nat (py_int test_size)) dataframe)
      else train_test_split dataframe test_size)"

definition process_interaction ::
  "splitter \<Rightarrow> dtype \<Rightarrow> row list \<Rightarrow> nat \<Rightarrow> nat \<Rightarrow> real \<Rightarrow> bool \<Rightarrow> error + coo \<times> coo" where
  "process_interaction train_test_split dt dataframe nu ni test_size random_split =
     (case split_rows train_test_split dataframe test_size random_split of
        Inl e \<Rightarrow> Inl e
      | Inr (train, test) \<Rightarrow>
          (case coo_matrix dt train (nu, ni) of
             Inl e \<Rightarrow> Inl e
           | Inr tm \<Rightarrow>
               (case coo_matrix dt test (nu, ni) of
                  Inl e \<Rightarrow> Inl e
                | Inr sm \<Rightarrow> Inr (tm, sm))))"

text \<open>
  The fields of a \<^verbatim>\<open>BaseRecommender\<close> that the modelled methods read. (\<^verbatim>\<open>items\<close>, the
  feature tables and the split parameters are stored as they are passed.)
\<close>

record recommender =
  df_interaction :: "row list"
  n_users :: nat
  n_items :: nat
  train_mat :: coo
  test_mat :: coo

text \<open>
  \<^verbatim>\<open>BaseRecommender.__init__\<close>, for a table whose interaction column has the dtype
  \<open>dt\<close>. The maximum of a column of an empty table is no number, and neither branch of
  \<^verbatim>\<open>process_interaction\<close> accepts it: construction fails. \<open>n_users\<close> and \<open>n_items\<close> are
  given by their values; that they are floats for a \<^verbatim>\<open>float64\<close> column is accounted for
  where they are used as a shape.
\<close>

definition init ::
  "splitter \<Rightarrow> dtype \<Rightarrow> ('u::linorder \<times> 'i::linorder \<times> real) list \<Rightarrow> real \<Rightarrow> bool
   \<Rightarrow> error + recommender"
  where
  "init train_test_split dt table test_size random_split =
     (let df = get_interaction table
      in if df = [] then Inl EmptyTable
         else
           (let nu = Max (set (map userId df)) + 1;
                ni = Max (set (map itemId df)) + 1
            in case process_interaction train_test_split dt df nu ni test_size random_split of
                 Inl e \<Rightarrow> Inl e
               | Inr (tm, sm) \<Rightarrow>
                   Inr \<lparr>df_interaction = df, n_users = nu, n_items = ni,
                        train_mat = tm, test_mat = sm\<rparr>))"

section \<open>Prediction\<close>

text \<open>
  The abstract \<^verbatim>\<open>predict\<close> is a parameter: from the arrays of user ids and item ids it
  returns an array of scores, or fails. The feature tables it also receives are fixed at
  construction and left inside the parameter.
\<close>

type_synonym scorer = "int list \<Rightarrow> nat list \<Rightarrow> error + xreal list"

definition predict_for_userId :: "scorer \<Rightarrow> recommender \<Rightarrow> int \<Rightarrow> error + xreal list" where
  "predict_for_userId predict self user_id =
     predict (replicate (n_items self) user_id) [0..<n_items self]"

text \<open>
  The item codes of the rows of \<^verbatim>\<open>df_interaction\<close> whose user is \<open>user_id\<close>, and
  \<^verbatim>\<open>prediction[seen] = -np.inf\<close>, an indexed assignment of numpy: it raises when an
  index is outside the array.
\<close>

definition seen_items :: "recommender \<Rightarrow> int \<Rightarrow> nat list" where
  "seen_items self user_id =
     map itemId (filter (\<lambda>r. int (userId r) = user_id) (df_interaction self))"

definition predict_for_userId_unseen ::
  "scorer \<Rightarrow> recommender \<Rightarrow> int \<Rightarrow> error + xreal list" where
  "predict_for_userId_unseen predict self user_id =
     (let seen = seen_items self user_id
      in case predict_for_userId predict self user_id of
           Inl e \<Rightarrow> Inl e
         | Inr prediction \<Rightarrow>
             if \<exists>i\<in>set seen. length prediction \<le> i then Inl IndexOutOfBounds
             else Inr (set_at seen NInf prediction))"

text \<open>
  \<^verbatim>\<open>np.argpartition(a, kth)\<close> checks \<open>kth\<close> against the length of \<open>a\<close>, counts a negative
  \<open>kth\<close> from the end, and returns a permutation of the indices of \<open>a\<close>. Which
  permutation is left to numpy's selection algorithm: it is the parameter \<open>part\<close>.
\<close>

type_synonym partitioner = "xreal list \<Rightarrow> nat \<Rightarrow> nat list"

definition argpartition :: "partitioner \<Rightarrow> xreal list \<Rightarrow> int \<Rightarrow> error + nat list" where
  "argpartition part a kth =
     (let n = int (length a)
      in if kth < - n \<or> n \<le> kth then Inl IndexOutOfBounds
         else Inr (part a (nat (if kth < 0 then kth + n else kth))))"

text \<open>What numpy guarantees of that permutation, as far as the properties below need it.\<close>

definition index_permutation :: "partitioner \<Rightarrow> bool" where
  "index_permutation part =
     (\<forall>a kth. kth < length a \<longrightarrow> distinct (part a kth) \<and> set (part a kth) = {..<length a})"

text \<open>One such permutation: the stable sort of all indices, NaN last.\<close>

definition argsort :: partitioner where
  "argsort a kth = sort_key (\<lambda>i. xord (a ! i)) [0..<length a]"

text \<open>The slice \<^verbatim>\<open>xs[:stop]\<close>.\<close>

definition slice_to :: "int \<Rightarrow> 'a list \<Rightarrow> 'a list" where
  "slice_to stop xs =
     (if 0 \<le> stop then take (nat stop) xs else take (nat (int (length xs) + stop)) xs)"

text \<open>
  \<^verbatim>\<open>BaseRecommender.predict_top_n_unseen\<close>; the dictionary it returns is a map from item
  codes to scores.
\<close>

definition predict_top_n_unseen ::
  "partitioner \<Rightarrow> scorer \<Rightarrow> recommender \<Rightarrow> int \<Rightarrow> int \<Rightarrow> error + (nat \<rightharpoonup> xreal)" where
  "predict_top_n_unseen part predict self user_id top_n =
     (case predict_for_userId_unseen predict self user_id of
        Inl e \<Rightarrow> Inl e
      | Inr prediction \<Rightarrow>
          (case argpartition part (map xneg prediction) top_n of
             Inl e \<Rightarrow> Inl e
           | Inr ap \<Rightarrow>
               (let result_args = slice_to top_n ap
                in if \<exists>key\<in>set result_args. length prediction \<le> key then Inl IndexOutOfBounds
                   else Inr (map_of (map (\<lambda>key. (key, prediction ! key)) result_args)))))"

section \<open>Notions used to state the properties of the codes\<close>

text \<open>
  \<open>cs\<close> codes \<open>vals\<close> by rank: one code per row, the codes are exactly the numbers below
  the number of distinct values, and two rows compare by code as they compare by value
  (so equal codes mean equal values).
\<close>

definition rank_coded :: "'a::linorder list \<Rightarrow> nat list \<Rightarrow> bool" where
  "rank_coded vals cs =
     (length cs = length vals \<and> set cs = {..<card (set vals)} \<and>
      (\<forall>i<length vals. \<forall>j<length vals. (cs ! i < cs ! j) = (vals ! i < vals ! j)))"



section \<open>Notions used to state the properties of the reranker\<close>

text \<open>A finite array value; a value that is finite or the mask \<^verbatim>\<open>-inf\<close>.\<close>

fun is_fin :: "xreal \<Rightarrow> bool" where
  "is_fin (Fin r) = True"
| "is_fin x = False"

definition low :: "xreal \<Rightarrow> bool" where
  "low x = (x = NInf \<or> is_fin x)"

text \<open>
  The state of the similarity matrix inside the loop: \<open>n\<close> rows of length \<open>n\<close>, whose
  columns listed in \<open>sel\<close> hold \<^verbatim>\<open>-inf\<close> and whose other entries are finite.
\<close>

definition masked_row :: "nat \<Rightarrow> nat list \<Rightarrow> xreal list \<Rightarrow> bool" where
  "masked_row n sel row =
     (length row = n \<and> (\<forall>j<n. if j \<in> set sel then row ! j = NInf else is_fin (row ! j)))"

definition masked_matrix :: "nat \<Rightarrow> nat list \<Rightarrow> xreal list list \<Rightarrow> bool" where
  "masked_matrix n sel m = (length m = n \<and> (\<forall>row\<in>set m. masked_row n sel row))"

text \<open>
  The indices of a vector in descending order of its values, equal values in ascending
  order of index. This follows the words of the specification, not the code.
\<close>

definition desc_order :: "real list \<Rightarrow> nat list" where
  "desc_order qs = sort_key (\<lambda>i. (- (qs ! i), i)) [0..<length qs]"

section \<open>A small recommender used as an example\<close>

text \<open>
  Three interactions of two users with three items, and the split that takes the first
  two rows as test rows. User 20 and item 8 occur in the test rows only.
\<close>

abbreviation example_table :: "(nat \<times> nat \<times> real) list" where
  "example_table \<equiv> [(20, 8, 1), (10, 7, 2), (10, 9, - 3)]"

abbreviation no_split :: splitter where
  "no_split \<equiv> (\<lambda>dataframe test_size. Inl SplitError)"

abbreviation example_self :: recommender where
  "example_self \<equiv>
     \<lparr>df_interaction =
        [\<lparr>userId = 1, itemId = 1, interaction = 1\<rparr>,
         \<lparr>userId = 0, itemId = 0, interaction = 2\<rparr>,
         \<lparr>userId = 0, itemId = 2, interaction = - 3\<rparr>],
      n_users = 2, n_items = 3,
      train_mat = \<lparr>coo_shape = (2, 3), coo_row = [0], coo_col = [2], coo_data = [- 3]\<rparr>,
      test_mat = \<lparr>coo_shape = (2, 3), coo_row = [1, 0], coo_col = [1, 0], coo_data = [1, 2]\<rparr>\<rparr>"



text \<open>A scorer that gives the three items the scores 5, 1 and 7, whatever the user.\<close>

abbreviation example_scorer :: scorer where
  "example_scorer \<equiv> (\<lambda>user_ids item_ids. Inr [Fin 5, Fin 1, Fin 7])"

section \<open>The order of array values\<close>

text \<open>
  An embedding of the array values into a linear order in which NaN is the top element.
  It is a proof device: \<open>better\<close> is exactly its strict order, so \<open>argmax\<close> returns the
  first index of a greatest element.
\<close>

lemma better_xord: "better x b \<longleftrightarrow> xord b < xord x"
  by (cases x; cases b) (auto simp: better_def)

lemma argmax_from_spec:
  assumes "bi < length pre" "i = length pre" "pre ! bi = b"
    and "\<forall>j<length pre. xord (pre ! j) \<le> xord b"
    and "\<forall>j<bi. xord (pre ! j) < xord b"
  shows "argmax_from i bi b xs < length (pre @ xs) \<and>
         (\<forall>j<length (pre @ xs). xord ((pre @ xs) ! j) \<le> xord ((pre @ xs) ! argmax_from i bi b xs)) \<and>
         (\<forall>j<argmax_from i bi b xs. xord ((pre @ xs) ! j) < xord ((pre @ xs) ! argmax_from i bi b xs))"
  using assms
proof (induction xs arbitrary: i bi b pre)
  case Nil
  then show ?case by simp
next
  case (Cons x xs)
  show ?case
  proof (cases "better x b")
    case True
    then have lt: "xord b < xord x" by (simp add: better_xord)
    have a1: "length pre < length (pre @ [x])" by simp
    have a2: "Suc i = length (pre @ [x])" using Cons.prems by simp
    have a3: "(pre @ [x]) ! length pre = x" by simp
    have a4: "\<forall>j<length (pre @ [x]). xord ((pre @ [x]) ! j) \<le> xord x"
      using Cons.prems(4) lt by (auto simp: nth_append less_Suc_eq intro: order.trans less_imp_le)
    have a5: "\<forall>j<length pre. xord ((pre @ [x]) ! j) < xord x"
      using Cons.prems(4) lt by (auto simp: nth_append intro: le_less_trans)
    from Cons.IH[OF a1 a2 a3 a4 a5] True Cons.prems(2) show ?thesis by simp
  next
    case False
    then have le: "xord x \<le> xord b" by (simp add: better_xord not_less)
    have a1: "bi < length (pre @ [x])" using Cons.prems by simp
    have a2: "Suc i = length (pre @ [x])" using Cons.prems by simp
    have a3: "(pre @ [x]) ! bi = b" using Cons.prems by (simp add: nth_append)
    have a4: "\<forall>j<length (pre @ [x]). xord ((pre @ [x]) ! j) \<le> xord b"
      using Cons.prems(4) le by (auto simp: nth_append less_Suc_eq)
    have a5: "\<forall>j<bi. xord ((pre @ [x]) ! j) < xord b"
      using Cons.prems(1,5) by (auto simp: nth_append)
    from Cons.IH[OF a1 a2 a3 a4 a5] False show ?thesis by simp
  qed
qed

lemma argmax_spec:
  assumes "xs \<noteq> []"
  shows "\<exists>p. argmax xs = Inr p \<and> p < length xs \<and>
           (\<forall>j<length xs. xord (xs ! j) \<le> xord (xs ! p)) \<and>
           (\<forall>j<p. xord (xs ! j) < xord (xs ! p))"
proof -
  obtain x ys where xs: "xs = x # ys" using assms by (cases xs) auto
  have "argmax_from 1 0 x ys < length ([x] @ ys) \<and>
         (\<forall>j<length ([x] @ ys). xord (([x] @ ys) ! j) \<le> xord (([x] @ ys) ! argmax_from 1 0 x ys)) \<and>
         (\<forall>j<argmax_from 1 0 x ys. xord (([x] @ ys) ! j) < xord (([x] @ ys) ! argmax_from 1 0 x ys))"
    by (rule argmax_from_spec) auto
  then show ?thesis by (simp add: xs argmax_def)
qed

section \<open>The reranker on the example of the specification\<close>

lemmas mmr_eval_defs =
  rerank_def argmax_def better_def mask_col_def set_col_def ncols_def max_axis1_def amax_def
  xmax_def broadcast_sub_def set_at_def

text \<open>
  C1, as stated: quality \<open>[0.9, 0.8, 0.7]\<close>, similarity
  \<open>[[0, 0.9, 0.1], [0.9, 0, 0.1], [0.1, 0.1, 0]]\<close>, \<open>lbd = 0.5\<close> and \<open>k = 2\<close> give
  the selection \<open>[0, 2]\<close>. The code does not return it.
\<close>

theorem C1_example_counterexample:
  "rerank (1/2) [Fin 0.9, Fin 0.8, Fin 0.7]
     [[Fin 0, Fin 0.9, Fin 0.1], [Fin 0.9, Fin 0, Fin 0.1], [Fin 0.1, Fin 0.1, Fin 0]] 2
   \<noteq> Inr (Vec [0, 2])"
  by (simp add: mmr_eval_defs)

text \<open>
  C1, amended: on that input \<open>rerank\<close> returns \<open>[0, 1]\<close>. Index 0 is the argmax of the
  quality scores. Column 0 of the similarity matrix is then masked, so the row maxima
  range over the columns that are not selected yet: they are 0.9, 0.1 and 0.1, the
  scores of indices 1 and 2 are \<open>0.5 * 0.8 - 0.5 * 0.1 = 0.35\<close> and
  \<open>0.5 * 0.7 - 0.5 * 0.1 = 0.3\<close>, and index 1 is selected second.
\<close>

theorem C1_example:
  "rerank (1/2) [Fin 0.9, Fin 0.8, Fin 0.7]
     [[Fin 0, Fin 0.9, Fin 0.1], [Fin 0.9, Fin 0, Fin 0.1], [Fin 0.1, Fin 0.1, Fin 0]] 2
   = Inr (Vec [0, 1])"
  by (simp add: mmr_eval_defs)

section \<open>The reranker for a non-positive \<open>k\<close>\<close>

text \<open>
  C4, as stated: with at least one candidate and \<open>k \<le> 0\<close> the result is an empty
  sequence. At one candidate and \<open>k = 0\<close> the code returns the zero-dimensional array
  that holds index 0.
\<close>

theorem C4_nonpositive_k_counterexample:
  "rerank (1/2) [Fin 1] [[Fin 0]] 0 = Inr (Scalar 0) \<and> ravel (Scalar 0) \<noteq> []"
  by (simp add: mmr_eval_defs)

text \<open>
  C4, amended: for every quality-score vector with at least one candidate, every
  similarity matrix with at least one column and every \<open>k \<le> 0\<close>, \<open>rerank\<close> returns the
  zero-dimensional array holding the argmax of the quality scores, which is what it
  returns for \<open>k = 1\<close>; the loop runs \<open>range(k - 1)\<close>, that is not at all.
\<close>

theorem C4_nonpositive_k:
  assumes "quality_scores \<noteq> []" and "0 < ncols similarity_scores" and "k \<le> 0"
  shows "\<exists>s<length quality_scores.
           argmax quality_scores = Inr s \<and>
           rerank lbd quality_scores similarity_scores k = Inr (Scalar s) \<and>
           rerank lbd quality_scores similarity_scores 1 = Inr (Scalar s)"
proof -
  obtain p where p: "argmax quality_scores = Inr p" "p < length quality_scores"
    using argmax_spec[OF assms(1)] by blast
  have "nat (min k (int (length quality_scores)) - 1) = 0" using assms(3) by simp
  moreover have "nat (min 1 (int (length quality_scores)) - 1) = 0" by simp
  ultimately show ?thesis using p assms(2) by (simp add: rerank_def mask_col_def Let_def)
qed

theorem C4_nonpositive_k_witness:
  "[Fin 3, Fin 5] \<noteq> [] \<and> 0 < ncols [[Fin 0, Fin 1], [Fin 1, Fin 0]] \<and> (-2::int) \<le> 0 \<and>
   (\<exists>s<length [Fin 3, Fin 5].
      argmax [Fin 3, Fin 5] = Inr s \<and>
      rerank (1/2) [Fin 3, Fin 5] [[Fin 0, Fin 1], [Fin 1, Fin 0]] (-2) = Inr (Scalar s) \<and>
      rerank (1/2) [Fin 3, Fin 5] [[Fin 0, Fin 1], [Fin 1, Fin 0]] 1 = Inr (Scalar s))"
proof -
  have h1: "[Fin 3, Fin 5] \<noteq> []" by simp
  have h2: "0 < ncols [[Fin 0, Fin 1], [Fin 1, Fin 0]]" by (simp add: ncols_def)
  have h3: "(-2::int) \<le> 0" by simp
  show ?thesis
    by (rule conjI [OF h1 conjI [OF h2 conjI [OF h3 C4_nonpositive_k [OF h1 h2 h3]]]])
qed

text \<open>
  On a similarity matrix without columns the masking of the first selected column
  raises, whatever \<open>k\<close> is.
\<close>

lemma rerank_no_columns:
  assumes "quality_scores \<noteq> []" and "ncols similarity_scores = 0"
  shows "rerank lbd quality_scores similarity_scores k = Inl IndexOutOfBounds"
proof -
  obtain p where "argmax quality_scores = Inr p" using argmax_spec[OF assms(1)] by blast
  then show ?thesis using assms(2) by (simp add: rerank_def mask_col_def Let_def)
qed

section \<open>The loop of the reranker\<close>

lemma length_set_at: "length (set_at idx v xs) = length xs"
  unfolding set_at_def by (induction idx arbitrary: xs) auto

lemma nth_set_at:
  "i < length xs \<Longrightarrow> set_at idx v xs ! i = (if i \<in> set idx then v else xs ! i)"
  unfolding set_at_def
proof (induction idx arbitrary: xs)
  case Nil
  then show ?case by simp
next
  case (Cons a idx)
  have "foldl (\<lambda>a i. a[i := v]) (xs[a := v]) idx ! i
        = (if i \<in> set idx then v else xs[a := v] ! i)"
    using Cons.prems by (intro Cons.IH) simp
  then show ?case using Cons.prems by (auto simp: nth_list_update)
qed

lemma is_fin_conv: "is_fin x \<longleftrightarrow> (\<exists>r. x = Fin r)"
  by (cases x) auto

lemma xmax_low: "low a \<Longrightarrow> low b \<Longrightarrow> low (xmax a b)"
  by (cases a; cases b) (auto simp: low_def xmax_def)

lemma xmax_fin: "low a \<Longrightarrow> low b \<Longrightarrow> is_fin a \<or> is_fin b \<Longrightarrow> is_fin (xmax a b)"
  by (cases a; cases b) (auto simp: low_def xmax_def)

lemma foldl_xmax_low:
  "low x \<Longrightarrow> \<forall>y\<in>set ys. low y \<Longrightarrow>
   low (foldl xmax x ys) \<and> ((is_fin x \<or> (\<exists>y\<in>set ys. is_fin y)) \<longrightarrow> is_fin (foldl xmax x ys))"
proof (induction ys arbitrary: x)
  case Nil
  then show ?case by simp
next
  case (Cons y ys)
  have l: "low (xmax x y)" using Cons.prems by (simp add: xmax_low)
  have f: "is_fin x \<or> is_fin y \<Longrightarrow> is_fin (xmax x y)" using Cons.prems by (simp add: xmax_fin)
  from Cons.IH[OF l] Cons.prems(2) f show ?case by auto
qed

lemma amax_masked_row:
  assumes "\<forall>y\<in>set row. low y" and "\<exists>y\<in>set row. is_fin y"
  shows "\<exists>v. amax row = Inr (Fin v)"
proof -
  obtain x ys where row: "row = x # ys" using assms(2) by (cases row) auto
  have "is_fin (foldl xmax x ys)"
    using foldl_xmax_low[of x ys] assms unfolding row by auto
  then show ?thesis by (auto simp: amax_def row is_fin_conv)
qed

lemma rows_max_fin:
  "\<forall>row\<in>set m. \<exists>v. amax row = Inr (Fin v) \<Longrightarrow>
   \<exists>ms. length ms = length m \<and> rows_max m = Inr (map Fin ms)"
proof (induction m)
  case Nil
  then show ?case by simp
next
  case (Cons r m)
  then obtain ms v where "length ms = length m" "rows_max m = Inr (map Fin ms)" "amax r = Inr (Fin v)"
    by auto
  then have "length (v # ms) = length (r # m) \<and> rows_max (r # m) = Inr (map Fin (v # ms))" by simp
  then show ?case by blast
qed

lemma masked_row_amax:
  assumes "masked_row n sel row" and "u < n" and "u \<notin> set sel"
  shows "\<exists>v. amax row = Inr (Fin v)"
proof (rule amax_masked_row)
  have len: "length row = n"
    and el: "\<And>j. j < n \<Longrightarrow> if j \<in> set sel then row ! j = NInf else is_fin (row ! j)"
    using assms(1) by (auto simp: masked_row_def)
  show "\<forall>y\<in>set row. low y"
  proof
    fix y assume "y \<in> set row"
    then obtain j where j: "j < n" "y = row ! j" using len by (auto simp: in_set_conv_nth)
    show "low y" using el[OF j(1)] j(2) by (auto simp: low_def split: if_splits)
  qed
  have "is_fin (row ! u)" using el[OF assms(2)] assms(3) by simp
  moreover have "row ! u \<in> set row" using len assms(2) by simp
  ultimately show "\<exists>y\<in>set row. is_fin y" by blast
qed

lemma masked_matrix_max:
  assumes "masked_matrix n sel m" and "u < n" and "u \<notin> set sel"
  shows "\<exists>ms. length ms = n \<and> max_axis1 m = Inr (map Fin ms)"
proof -
  have "\<forall>row\<in>set m. \<exists>v. amax row = Inr (Fin v)"
    using assms masked_row_amax by (auto simp: masked_matrix_def)
  then have "\<exists>ms. length ms = length m \<and> rows_max m = Inr (map Fin ms)"
    by (rule rows_max_fin)
  moreover have "m \<noteq> []" using assms(1,2) by (auto simp: masked_matrix_def)
  ultimately show ?thesis using assms(1) by (simp add: masked_matrix_def max_axis1_def)
qed

lemma masked_row_update:
  assumes "masked_row n sel row"
  shows "masked_row n (sel @ [j]) (row[j := NInf])"
proof -
  have len: "length row = n"
    and el: "\<And>i. i < n \<Longrightarrow> if i \<in> set sel then row ! i = NInf else is_fin (row ! i)"
    using assms by (auto simp: masked_row_def)
  have step: "if i \<in> set (sel @ [j]) then row[j := NInf] ! i = NInf
        else is_fin (row[j := NInf] ! i)" if "i < n" for i
    using el[OF that] that len by (cases "i = j") auto
  show ?thesis unfolding masked_row_def
  proof (intro conjI allI impI)
    show "length (row[j := NInf]) = n" using len by simp
    show "if i \<in> set (sel @ [j]) then row[j := NInf] ! i = NInf
          else is_fin (row[j := NInf] ! i)" if "i < n" for i
      using step[OF that] .
  qed
qed

lemma masked_matrix_set_col:
  assumes "masked_matrix n sel m"
  shows "masked_matrix n (sel @ [j]) (set_col j m)"
  using assms by (auto simp: masked_matrix_def set_col_def intro: masked_row_update)

lemma masked_matrix_mask_col:
  assumes "masked_matrix n sel m" and "0 < n"
  shows "mask_col j m = Inr (set_col j m)"
proof -
  obtain r rs where m: "m = r # rs" using assms by (cases m) (auto simp: masked_matrix_def)
  then have "length r = n" using assms(1) by (simp add: masked_matrix_def masked_row_def)
  then show ?thesis using assms(2) m by (simp add: mask_col_def ncols_def)
qed

lemma masked_matrix_init:
  assumes "length S = n" and "\<forall>r\<in>set S. length r = n"
  shows "masked_matrix n [] (map (map Fin) S)"
  using assms by (auto simp: masked_matrix_def masked_row_def)

lemma scores_fin:
  assumes "length qs = length ms"
  shows "broadcast_sub (map (smul lbd) (map Fin qs)) (map (smul c) (map Fin ms))
         = Inr (map Fin (map2 (\<lambda>q m. lbd * q - c * m) qs ms))"
  using assms by (auto simp: broadcast_sub_def intro!: nth_equalityI)

lemma argmax_masked:
  assumes "length rs = n" and "u < n" and "u \<notin> set sel"
  shows "\<exists>p. argmax (set_at sel NInf (map Fin rs)) = Inr p \<and> p < n \<and> p \<notin> set sel \<and>
           (\<forall>j<n. j \<notin> set sel \<longrightarrow> rs ! j \<le> rs ! p) \<and>
           (\<forall>j<p. j \<notin> set sel \<longrightarrow> rs ! j < rs ! p)"
proof -
  let ?xs = "set_at sel NInf (map Fin rs)"
  have len: "length ?xs = n" using assms(1) by (simp add: length_set_at)
  have nth: "?xs ! i = (if i \<in> set sel then NInf else Fin (rs ! i))" if "i < n" for i
    using that assms(1) by (simp add: nth_set_at)
  have "?xs \<noteq> []" using len assms(2) by auto
  from argmax_spec[OF this] obtain p where p: "argmax ?xs = Inr p" "p < n"
    and ge: "\<And>j. j < n \<Longrightarrow> xord (?xs ! j) \<le> xord (?xs ! p)"
    and gt: "\<And>j. j < p \<Longrightarrow> xord (?xs ! j) < xord (?xs ! p)"
    using len by auto
  have notsel: "p \<notin> set sel"
  proof
    assume "p \<in> set sel"
    then have "?xs ! p = NInf" using nth[OF p(2)] by simp
    moreover have "?xs ! u = Fin (rs ! u)" using nth[OF assms(2)] assms(3) by simp
    ultimately show False using ge[OF assms(2)] by simp
  qed
  then have pv: "?xs ! p = Fin (rs ! p)" using nth[OF p(2)] by simp
  have a: "rs ! j \<le> rs ! p" if "j < n" "j \<notin> set sel" for j
    using ge[OF that(1)] nth[OF that(1)] that(2) pv by simp
  have b: "rs ! j < rs ! p" if "j < p" "j \<notin> set sel" for j
  proof -
    have "j < n" using that(1) p(2) by simp
    then show ?thesis using gt[OF that(1)] nth[of j] that(2) pv by simp
  qed
  show ?thesis using p notsel a b by blast
qed

lemma exists_unselected:
  assumes "length sel < n"
  shows "\<exists>u<n. u \<notin> set sel"
proof (rule ccontr)
  assume "\<not> (\<exists>u<n. u \<notin> set sel)"
  then have "{..<n} \<subseteq> set sel" by auto
  then have "card {..<n} \<le> card (set sel)" by (intro card_mono) auto
  also have "\<dots> \<le> length sel" by (rule card_length)
  finally show False using assms by simp
qed

lemma mmr_step:
  assumes mm: "masked_matrix n sel m" and len: "length qs = n"
    and lt: "length sel < n" and rs: "ravel s = sel"
  shows "\<exists>ms j. length ms = n \<and> j < n \<and> j \<notin> set sel \<and>
           (\<forall>i<n. i \<notin> set sel \<longrightarrow>
              map2 (\<lambda>q m. lbd * q - (1 - lbd) * m) qs ms ! i
              \<le> map2 (\<lambda>q m. lbd * q - (1 - lbd) * m) qs ms ! j) \<and>
           (\<forall>i<j. i \<notin> set sel \<longrightarrow>
              map2 (\<lambda>q m. lbd * q - (1 - lbd) * m) qs ms ! i
              < map2 (\<lambda>q m. lbd * q - (1 - lbd) * m) qs ms ! j) \<and>
           mmr_loop (Suc k) lbd (map Fin qs) s m
             = mmr_loop k lbd (map Fin qs) (Vec (sel @ [j])) (set_col j m)"
proof -
  obtain u where u: "u < n" "u \<notin> set sel" using exists_unselected[OF lt] by blast
  obtain ms where ms: "length ms = n" "max_axis1 m = Inr (map Fin ms)"
    using masked_matrix_max[OF mm u] by blast
  let ?rs = "map2 (\<lambda>q m. lbd * q - (1 - lbd) * m) qs ms"
  have sc: "broadcast_sub (map (smul lbd) (map Fin qs)) (map (smul (1 - lbd)) (map Fin ms))
            = Inr (map Fin ?rs)"
    using len ms(1) by (intro scores_fin) simp
  have lrs: "length ?rs = n" using len ms(1) by simp
  obtain j where j: "argmax (set_at sel NInf (map Fin ?rs)) = Inr j" "j < n" "j \<notin> set sel"
    and a: "\<forall>i<n. i \<notin> set sel \<longrightarrow> ?rs ! i \<le> ?rs ! j"
    and b: "\<forall>i<j. i \<notin> set sel \<longrightarrow> ?rs ! i < ?rs ! j"
    using argmax_masked[OF lrs u] by blast
  have "0 < n" using u(1) by simp
  then have "mask_col j m = Inr (set_col j m)" by (rule masked_matrix_mask_col[OF mm])
  then have "mmr_loop (Suc k) lbd (map Fin qs) s m
        = mmr_loop k lbd (map Fin qs) (Vec (sel @ [j])) (set_col j m)"
    using ms(2) sc j(1) rs by simp
  then show ?thesis using ms(1) j(2,3) a b by blast
qed

lemma mmr_loop_distinct:
  assumes "length qs = n"
  shows "masked_matrix n (ravel s) m \<Longrightarrow> distinct (ravel s) \<Longrightarrow> set (ravel s) \<subseteq> {..<n} \<Longrightarrow>
         length (ravel s) + k \<le> n \<Longrightarrow>
         \<exists>s'. mmr_loop k lbd (map Fin qs) s m = Inr s' \<and> distinct (ravel s') \<and>
               set (ravel s') \<subseteq> {..<n} \<and> length (ravel s') = length (ravel s) + k"
proof (induction k arbitrary: s m)
  case 0
  then show ?case by simp
next
  case (Suc k)
  have lt: "length (ravel s) < n" using Suc.prems(4) by simp
  obtain j where j: "j < n" "j \<notin> set (ravel s)"
    and eq: "mmr_loop (Suc k) lbd (map Fin qs) s m
             = mmr_loop k lbd (map Fin qs) (Vec (ravel s @ [j])) (set_col j m)"
    using mmr_step[OF Suc.prems(1) assms lt refl, of lbd k] by blast
  have "\<exists>s'. mmr_loop k lbd (map Fin qs) (Vec (ravel s @ [j])) (set_col j m) = Inr s' \<and>
          distinct (ravel s') \<and> set (ravel s') \<subseteq> {..<n} \<and>
          length (ravel s') = length (ravel (Vec (ravel s @ [j]))) + k"
  proof (rule Suc.IH)
    show "masked_matrix n (ravel (Vec (ravel s @ [j]))) (set_col j m)"
      using masked_matrix_set_col[OF Suc.prems(1)] by simp
    show "distinct (ravel (Vec (ravel s @ [j])))" using Suc.prems(2) j(2) by simp
    show "set (ravel (Vec (ravel s @ [j]))) \<subseteq> {..<n}" using Suc.prems(3) j(1) by simp
    show "length (ravel (Vec (ravel s @ [j]))) + k \<le> n" using Suc.prems(4) by simp
  qed
  then show ?case unfolding eq by simp
qed

lemma first_pick:
  assumes "qs \<noteq> []"
  shows "\<exists>p<length qs. argmax (map Fin qs) = Inr p \<and>
           (\<forall>j<length qs. qs ! j \<le> qs ! p) \<and> (\<forall>j<p. qs ! j < qs ! p)"
proof -
  have "0 < length qs" using assms by simp
  from argmax_masked[OF refl this, of "[]"] show ?thesis by (auto simp: set_at_def)
qed

lemma square_ncols:
  assumes "qs \<noteq> []" and "length S = length qs" and "\<forall>r\<in>set S. length r = length qs"
  shows "0 < ncols (map (map f) S)"
proof -
  obtain r rs where S: "S = r # rs" using assms(1,2) by (cases S) auto
  then have "length r = length qs" using assms(3) by simp
  then show ?thesis using assms(1) S by (simp add: ncols_def)
qed

lemma rerank_unfold:
  assumes "argmax q = Inr p" and "0 < ncols sim"
  shows "rerank lbd q sim k
         = mmr_loop (nat (min k (int (length q)) - 1)) lbd q (Scalar p) (set_col p sim)"
  using assms by (simp add: rerank_def mask_col_def Let_def)

text \<open>
  C6, as stated: the output length is \<open>min(k, n)\<close> for every \<open>k\<close>. At \<open>k = 0\<close> and two
  candidates the code returns one index.
\<close>

theorem C6_length_counterexample:
  "rerank (1/2) [Fin 2, Fin 1] [[Fin 0, Fin 1], [Fin 1, Fin 0]] 0 = Inr (Scalar 0) \<and>
   int (length (ravel (Scalar 0))) \<noteq> min 0 (int (length [Fin 2, Fin 1]))"
  by (simp add: mmr_eval_defs)

text \<open>
  C6, amended: for every finite quality-score vector of length \<open>n \<ge> 1\<close>, every finite
  \<open>n \<times> n\<close> similarity matrix, every \<open>lbd\<close> and every \<open>k\<close>, \<open>rerank\<close> returns a selection in
  which no index appears twice, every index is below \<open>n\<close>, and whose length is
  \<open>max(1, min(k, n))\<close>, which is \<open>min(k, n)\<close> for \<open>k \<ge> 1\<close>.
\<close>

theorem C6_distinct_length:
  assumes "qs \<noteq> []" and "length S = length qs" and "\<forall>r\<in>set S. length r = length qs"
  shows "\<exists>s. rerank lbd (map Fin qs) (map (map Fin) S) k = Inr s \<and> distinct (ravel s) \<and>
             set (ravel s) \<subseteq> {..<length qs} \<and>
             int (length (ravel s)) = max 1 (min k (int (length qs)))"
proof -
  let ?n = "length qs"
  let ?k = "nat (min k (int ?n) - 1)"
  obtain p where p: "p < ?n" "argmax (map Fin qs) = Inr p" using first_pick[OF assms(1)] by blast
  have mm: "masked_matrix ?n (ravel (Scalar p)) (set_col p (map (map Fin) S))"
    using masked_matrix_set_col[OF masked_matrix_init[OF assms(2,3)], of p] by simp
  have nc: "0 < ncols (map (map Fin) S)" using assms by (rule square_ncols)
  have "0 < ?n" using assms(1) by simp
  then have "Suc ?k \<le> ?n" by linarith
  then have le: "length (ravel (Scalar p)) + ?k \<le> ?n" by simp
  have "\<exists>s'. mmr_loop ?k lbd (map Fin qs) (Scalar p) (set_col p (map (map Fin) S)) = Inr s' \<and>
          distinct (ravel s') \<and> set (ravel s') \<subseteq> {..<?n} \<and>
          length (ravel s') = length (ravel (Scalar p)) + ?k"
    using mm p(1) le by (intro mmr_loop_distinct) simp_all
  then obtain s' where s': "mmr_loop ?k lbd (map Fin qs) (Scalar p) (set_col p (map (map Fin) S)) = Inr s'"
      "distinct (ravel s')" "set (ravel s') \<subseteq> {..<?n}" "length (ravel s') = 1 + ?k"
    by auto
  have "int (1 + ?k) = max 1 (min k (int ?n))" using \<open>0 < ?n\<close> by linarith
  then show ?thesis using s' rerank_unfold[OF p(2) nc, of lbd k] by simp
qed


theorem C6_distinct_length_witness:
  "[9/10, 8/10, 7/10 :: real] \<noteq> [] \<and>
   length [[0, 9/10, 1/10], [9/10, 0, 1/10], [1/10, 1/10, 0 :: real]]
     = length [9/10, 8/10, 7/10 :: real] \<and>
   list_all (\<lambda>r. length r = length [9/10, 8/10, 7/10 :: real])
     [[0, 9/10, 1/10], [9/10, 0, 1/10], [1/10, 1/10, 0 :: real]] \<and>
   (\<exists>s. rerank (1/2) (map Fin [9/10, 8/10, 7/10])
          (map (map Fin) [[0, 9/10, 1/10], [9/10, 0, 1/10], [1/10, 1/10, 0]]) 2 = Inr s \<and>
        distinct (ravel s) \<and> set (ravel s) \<subseteq> {..<length [9/10, 8/10, 7/10 :: real]} \<and>
        int (length (ravel s)) = max 1 (min 2 (int (length [9/10, 8/10, 7/10 :: real]))))"
  using C6_distinct_length [of "[9/10, 8/10, 7/10]"
      "[[0, 9/10, 1/10], [9/10, 0, 1/10], [1/10, 1/10, 0]]" "1/2" 2]
  by simp

section \<open>The quality-only limit\<close>

lemma desc_order_props:
  "length (desc_order qs) = length qs"
  "set (desc_order qs) = {..<length qs}"
  "distinct (desc_order qs)"
  "sorted (map (\<lambda>i. (- (qs ! i), i)) (desc_order qs))"
  by (auto simp: desc_order_def)

lemma nth_notin_take:
  assumes "distinct xs" and "t < length xs"
  shows "xs ! t \<notin> set (take t xs)"
proof
  assume "xs ! t \<in> set (take t xs)"
  then obtain i where i: "i < t" "take t xs ! i = xs ! t"
    using assms(2) by (auto simp: in_set_conv_nth)
  then have "xs ! i = xs ! t" by simp
  then have "i = t" using assms i(1) by (simp add: nth_eq_iff_index_eq)
  then show False using i(1) by simp
qed

lemma desc_order_pick:
  assumes t: "t < length qs" and p: "p < length qs"
    and notsel: "p \<notin> set (take t (desc_order qs))"
    and ge: "\<forall>j<length qs. j \<notin> set (take t (desc_order qs)) \<longrightarrow> qs ! j \<le> qs ! p"
    and gt: "\<forall>j<p. j \<notin> set (take t (desc_order qs)) \<longrightarrow> qs ! j < qs ! p"
  shows "p = desc_order qs ! t"
proof -
  let ?L = "desc_order qs"
  let ?f = "\<lambda>i. (- (qs ! i), i)"
  let ?u = "?L ! t"
  have lenL: "length ?L = length qs" by (rule desc_order_props)
  have "?u \<in> set ?L" using t lenL by simp
  then have un: "?u < length qs" by (simp add: desc_order_props)
  have unot: "?u \<notin> set (take t ?L)"
    using nth_notin_take[OF desc_order_props(3)] t lenL by simp
  have "p \<in> set ?L" using p by (simp add: desc_order_props)
  then obtain i where i: "i < length qs" "?L ! i = p" using lenL by (auto simp: in_set_conv_nth)
  have "t \<le> i"
  proof (rule ccontr)
    assume "\<not> t \<le> i"
    then have "i < t" by simp
    then have "take t ?L ! i = p" using i by simp
    moreover have "i < length (take t ?L)" using \<open>i < t\<close> t lenL by simp
    ultimately have "p \<in> set (take t ?L)" using nth_mem by metis
    then show False using notsel by simp
  qed
  then have "map ?f ?L ! t \<le> map ?f ?L ! i"
    using desc_order_props(4)[of qs] i(1) lenL by (intro sorted_nth_mono) simp_all
  then have up: "?f ?u \<le> ?f p" using i t lenL by simp
  have le: "qs ! ?u \<le> qs ! p" using ge un unot by blast
  have pu: "?f p \<le> ?f ?u"
  proof (cases "qs ! ?u < qs ! p")
    case True
    then show ?thesis by simp
  next
    case False
    then have eq: "qs ! ?u = qs ! p" using le by simp
    have "\<not> ?u < p" using gt unot eq by force
    then show ?thesis using eq by simp
  qed
  from up pu have "?f p = ?f ?u" by (rule order.antisym[rotated])
  then show ?thesis by simp
qed

lemma quality_only_scores:
  assumes "length ms = length qs"
  shows "map2 (\<lambda>q m. 1 * q - (1 - 1) * m) qs ms = (qs :: real list)"
  using assms by (auto intro!: nth_equalityI)

lemma mmr_loop_desc:
  assumes "length qs = n"
  shows "masked_matrix n (ravel s) m \<Longrightarrow> ravel s = take t (desc_order qs) \<Longrightarrow> t + k \<le> n \<Longrightarrow>
         \<exists>s'. mmr_loop k 1 (map Fin qs) s m = Inr s' \<and> ravel s' = take (t + k) (desc_order qs)"
proof (induction k arbitrary: s m t)
  case 0
  then show ?case by simp
next
  case (Suc k)
  let ?L = "desc_order qs"
  have lenL: "length ?L = n" using assms by (simp add: desc_order_props)
  have tn: "t < n" using Suc.prems(3) by simp
  have lt: "length (ravel s) < n" using Suc.prems(2,3) lenL by simp
  obtain ms j where ms: "length ms = n" and j: "j < n" "j \<notin> set (ravel s)"
    and a: "\<forall>i<n. i \<notin> set (ravel s) \<longrightarrow>
              map2 (\<lambda>q m. 1 * q - (1 - 1) * m) qs ms ! i
              \<le> map2 (\<lambda>q m. 1 * q - (1 - 1) * m) qs ms ! j"
    and b: "\<forall>i<j. i \<notin> set (ravel s) \<longrightarrow>
              map2 (\<lambda>q m. 1 * q - (1 - 1) * m) qs ms ! i
              < map2 (\<lambda>q m. 1 * q - (1 - 1) * m) qs ms ! j"
    and eq: "mmr_loop (Suc k) 1 (map Fin qs) s m
             = mmr_loop k 1 (map Fin qs) (Vec (ravel s @ [j])) (set_col j m)"
    using mmr_step[OF Suc.prems(1) assms lt refl, of 1 k] by blast
  have qo: "map2 (\<lambda>q m. 1 * q - (1 - 1) * m) qs ms = qs"
    using ms assms by (intro quality_only_scores) simp
  have "j = ?L ! t"
  proof (rule desc_order_pick)
    show "t < length qs" using tn assms by simp
    show "j < length qs" using j(1) assms by simp
    show "j \<notin> set (take t ?L)" using j(2) Suc.prems(2) by simp
    show "\<forall>i<length qs. i \<notin> set (take t ?L) \<longrightarrow> qs ! i \<le> qs ! j"
      using a assms Suc.prems(2) unfolding qo by simp
    show "\<forall>i<j. i \<notin> set (take t ?L) \<longrightarrow> qs ! i < qs ! j"
      using b Suc.prems(2) unfolding qo by simp
  qed
  then have sel: "ravel (Vec (ravel s @ [j])) = take (Suc t) ?L"
    using Suc.prems(2) tn lenL by (simp add: take_Suc_conv_app_nth)
  have "\<exists>s'. mmr_loop k 1 (map Fin qs) (Vec (ravel s @ [j])) (set_col j m) = Inr s' \<and>
          ravel s' = take (Suc t + k) ?L"
  proof (rule Suc.IH)
    show "masked_matrix n (ravel (Vec (ravel s @ [j]))) (set_col j m)"
      using masked_matrix_set_col[OF Suc.prems(1)] by simp
    show "ravel (Vec (ravel s @ [j])) = take (Suc t) ?L" by (rule sel)
    show "Suc t + k \<le> n" using Suc.prems(3) by simp
  qed
  then show ?case unfolding eq by simp
qed

text \<open>
  C5, as stated: with \<open>lbd = 1\<close> the output is the first \<open>min(k, n)\<close> indices of the
  descending order, for every \<open>k\<close>. At \<open>k = 0\<close> that is the empty sequence, and the code
  returns one index.
\<close>

theorem C5_quality_only_counterexample:
  "rerank 1 [Fin 1, Fin 2] [[Fin 0, Fin 1], [Fin 1, Fin 0]] 0 = Inr (Scalar 1) \<and>
   ravel (Scalar 1) \<noteq> take (nat (min 0 (int (length [1::real, 2])))) (desc_order [1, 2])"
  by (simp add: mmr_eval_defs)

text \<open>
  C5, amended: for \<open>lbd = 1\<close>, every finite quality-score vector of length \<open>n \<ge> 1\<close>,
  every finite \<open>n \<times> n\<close> similarity matrix and every \<open>k\<close>, the output of \<open>rerank\<close> is the
  first \<open>max(1, min(k, n))\<close> indices of the descending order of the quality scores, ties
  broken by lowest index first; for \<open>k \<ge> 1\<close> these are the first \<open>min(k, n)\<close>.
\<close>

theorem C5_quality_only:
  assumes "qs \<noteq> []" and "length S = length qs" and "\<forall>r\<in>set S. length r = length qs"
  shows "\<exists>s. rerank 1 (map Fin qs) (map (map Fin) S) k = Inr s \<and>
             ravel s = take (nat (max 1 (min k (int (length qs))))) (desc_order qs)"
proof -
  let ?n = "length qs"
  let ?k = "nat (min k (int ?n) - 1)"
  let ?L = "desc_order qs"
  have pos: "0 < ?n" using assms(1) by simp
  obtain p where p: "p < ?n" "argmax (map Fin qs) = Inr p"
    and a: "\<forall>j<?n. qs ! j \<le> qs ! p" and b: "\<forall>j<p. qs ! j < qs ! p"
    using first_pick[OF assms(1)] by blast
  have "p = ?L ! 0"
    using pos p(1) a b by (intro desc_order_pick) simp_all
  then have sel: "ravel (Scalar p) = take 1 ?L"
    using pos by (simp add: take_Suc_conv_app_nth desc_order_props)
  have mm: "masked_matrix ?n (ravel (Scalar p)) (set_col p (map (map Fin) S))"
    using masked_matrix_set_col[OF masked_matrix_init[OF assms(2,3)], of p] by simp
  have nc: "0 < ncols (map (map Fin) S)" using assms by (rule square_ncols)
  have le: "1 + ?k \<le> ?n" using pos by linarith
  have "\<exists>s'. mmr_loop ?k 1 (map Fin qs) (Scalar p) (set_col p (map (map Fin) S)) = Inr s' \<and>
          ravel s' = take (1 + ?k) ?L"
    using mm sel le by (intro mmr_loop_desc) simp_all
  moreover have "1 + ?k = nat (max 1 (min k (int ?n)))" using pos by linarith
  ultimately show ?thesis using rerank_unfold[OF p(2) nc, of 1 k] by simp
qed


theorem C5_quality_only_witness:
  "[3, 5, 5, 1 :: real] \<noteq> [] \<and>
   length [[0, 1, 2, 3], [1, 0, 4, 5], [2, 4, 0, 6], [3, 5, 6, 0 :: real]] = length [3, 5, 5, 1 :: real] \<and>
   list_all (\<lambda>r. length r = length [3, 5, 5, 1 :: real])
     [[0, 1, 2, 3], [1, 0, 4, 5], [2, 4, 0, 6], [3, 5, 6, 0 :: real]] \<and>
   (\<exists>s. rerank 1 (map Fin [3, 5, 5, 1])
          (map (map Fin) [[0, 1, 2, 3], [1, 0, 4, 5], [2, 4, 0, 6], [3, 5, 6, 0]]) 3 = Inr s \<and>
        ravel s = take (nat (max 1 (min 3 (int (length [3, 5, 5, 1 :: real])))))
                    (desc_order [3, 5, 5, 1]))"
  using C5_quality_only [of "[3, 5, 5, 1]"
      "[[0, 1, 2, 3], [1, 0, 4, 5], [2, 4, 0, 6], [3, 5, 6, 0]]" 3]
  by simp

section \<open>The dense codes\<close>

lemma categories_props:
  "sorted (categories vals)" "distinct (categories vals)"
  "set (categories vals) = set vals" "length (categories vals) = card (set vals)"
  by (simp_all add: categories_def length_remdups_card_conv)

lemma index_of_nth:
  "x \<in> set xs \<Longrightarrow> index_of xs x < length xs \<and> xs ! index_of xs x = x"
  by (induction xs) auto

lemma index_of_inverse:
  "distinct xs \<Longrightarrow> k < length xs \<Longrightarrow> index_of xs (xs ! k) = k"
proof (induction xs arbitrary: k)
  case Nil
  then show ?case by simp
next
  case (Cons a xs)
  then show ?case by (cases k) auto
qed

lemma index_of_less_iff:
  assumes "sorted xs" and "distinct xs" and "x \<in> set xs" and "y \<in> set xs"
  shows "index_of xs x < index_of xs y \<longleftrightarrow> x < y"
proof -
  let ?i = "index_of xs x" and ?j = "index_of xs y"
  have i: "?i < length xs" "xs ! ?i = x" using index_of_nth[OF assms(3)] by auto
  have j: "?j < length xs" "xs ! ?j = y" using index_of_nth[OF assms(4)] by auto
  have strict: "sorted_wrt (<) xs" using assms(1,2) by (simp add: strict_sorted_iff)
  show ?thesis
  proof
    assume "?i < ?j"
    then have "xs ! ?i < xs ! ?j" using sorted_wrt_nth_less[OF strict _ j(1)] by blast
    then show "x < y" using i j by simp
  next
    assume xy: "x < y"
    show "?i < ?j"
    proof (rule ccontr)
      assume "\<not> ?i < ?j"
      then have "?j \<le> ?i" by simp
      then have "xs ! ?j \<le> xs ! ?i" using sorted_nth_mono[OF assms(1) _ i(1)] by blast
      then show False using xy i j by simp
    qed
  qed
qed

lemma rank_coded_codes: "rank_coded vals (codes vals)"
proof -
  let ?c = "categories vals"
  have mem: "vals ! i \<in> set ?c" if "i < length vals" for i
    using that by (simp add: categories_props)
  have bound: "set (codes vals) \<subseteq> {..<card (set vals)}"
  proof
    fix c assume "c \<in> set (codes vals)"
    then obtain x where x: "x \<in> set vals" "c = index_of ?c x" by (auto simp: codes_def)
    then have "x \<in> set ?c" by (simp add: categories_props)
    from index_of_nth[OF this] x show "c \<in> {..<card (set vals)}"
      by (simp add: categories_props)
  qed
  have onto: "{..<card (set vals)} \<subseteq> set (codes vals)"
  proof
    fix k assume "k \<in> {..<card (set vals)}"
    then have k: "k < length ?c" by (simp add: categories_props)
    then have "?c ! k \<in> set vals" using nth_mem[OF k] by (simp add: categories_props)
    moreover have "index_of ?c (?c ! k) = k"
      using k by (intro index_of_inverse) (simp_all add: categories_props)
    ultimately show "k \<in> set (codes vals)" by (force simp: codes_def)
  qed
  have ord: "(codes vals ! i < codes vals ! j) = (vals ! i < vals ! j)"
    if "i < length vals" "j < length vals" for i j
    using that index_of_less_iff[OF categories_props(1,2) mem[OF that(1)] mem[OF that(2)]]
    by (simp add: codes_def)
  show ?thesis unfolding rank_coded_def using bound onto ord by (auto simp: codes_def)
qed

lemma get_interaction_columns:
  "length (get_interaction table) = length table"
  "map userId (get_interaction table) = codes (map fst table)"
  "map itemId (get_interaction table) = codes (map (fst \<circ> snd) table)"
  "map interaction (get_interaction table) = map (snd \<circ> snd) table"
  by (auto simp: get_interaction_def codes_def intro!: nth_equalityI)

text \<open>
  C2, amended: for every raw interaction table, the normalisation remaps the distinct raw
  user IDs (and, separately, the distinct raw item IDs) to dense zero-based integer codes
  in sorted order: the codes are exactly \<open>0 .. d - 1\<close> for \<open>d\<close> distinct raw IDs, and the
  code of one row is below the code of another exactly when its raw ID is smaller. So the
  \<open>i\<close>-th smallest distinct raw ID receives code \<open>i\<close>, and equal codes mean equal raw IDs.
\<close>

theorem C2_rank_codes:
  "rank_coded (map fst table) (map userId (get_interaction table)) \<and>
   rank_coded (map (fst \<circ> snd) table) (map itemId (get_interaction table))"
  by (simp add: get_interaction_columns rank_coded_codes)

text \<open>
  C2, as stated: the \<open>i\<close>-th distinct raw ID met when scanning the rows from the top
  receives code \<open>i\<close>. For the users 20, 10 the code gives 1, 0; first-seen order is 0, 1.
\<close>

theorem C2_first_seen_counterexample: "map userId (get_interaction [(20::nat, 7::nat, 1), (10, 8, 1)]) = [1, 0] \<and>
   first_seen_codes (map fst [(20::nat, 7::nat, 1::real), (10, 8, 1)]) = [0, 1]"
  by (simp add: get_interaction_def codes_def categories_def first_seen_codes_def)

theorem C2_rank_codes_witness:
  "map userId (get_interaction [(20::nat, 7::nat, 1), (10, 8, 1), (20, 8, 2), (5, 7, 3)]) = [2, 1, 2, 0] \<and>
   map itemId (get_interaction [(20::nat, 7::nat, 1), (10, 8, 1), (20, 8, 2), (5, 7, 3)]) = [0, 1, 1, 0] \<and>
   rank_coded [20::nat, 10, 20, 5] [2, 1, 2, 0] \<and> rank_coded [7::nat, 8, 8, 7] [0, 1, 1, 0]"
proof -
  have e: "get_interaction [(20::nat, 7::nat, 1), (10, 8, 1), (20, 8, 2), (5, 7, 3)]
           = [\<lparr>userId = 2, itemId = 0, interaction = 1\<rparr>,
              \<lparr>userId = 1, itemId = 1, interaction = 1\<rparr>,
              \<lparr>userId = 2, itemId = 1, interaction = 2\<rparr>,
              \<lparr>userId = 0, itemId = 0, interaction = 3\<rparr>]"
    by code_simp
  from C2_rank_codes [of "[(20::nat, 7::nat, 1), (10, 8, 1), (20, 8, 2), (5, 7, 3)]"]
  show ?thesis unfolding e by simp
qed

section \<open>Construction of the recommender\<close>

lemma init_Inr:
  assumes "init tts dt table ts rs = Inr self"
  shows "get_interaction table \<noteq> []"
    and "df_interaction self = get_interaction table"
    and "n_users self = Max (set (map userId (get_interaction table))) + 1"
    and "n_items self = Max (set (map itemId (get_interaction table))) + 1"
    and "process_interaction tts dt (get_interaction table) (n_users self) (n_items self) ts rs
         = Inr (train_mat self, test_mat self)"
  using assms by (auto simp: init_def Let_def split: if_splits sum.splits prod.splits)

lemma process_interaction_Inr:
  assumes "process_interaction tts dt df nu ni ts rs = Inr (tm, sm)"
  shows "\<exists>train test. split_rows tts df ts rs = Inr (train, test) \<and>
           coo_matrix dt train (nu, ni) = Inr tm \<and> coo_matrix dt test (nu, ni) = Inr sm"
  using assms by (auto simp: process_interaction_def split: sum.splits prod.splits)

lemma coo_matrix_Inr:
  assumes "coo_matrix dt rows sh = Inr m"
  shows "coo_shape m = sh" and "coo_row m = map userId rows" and "coo_col m = map itemId rows"
    and "astype_all dt (map interaction rows) = Inr (coo_data m)" and "dt \<noteq> Float64"
  using assms by (auto simp: coo_matrix_def split: if_splits sum.splits)

lemma init_codes_bound:
  assumes "init tts dt table ts rs = Inr self" and "r \<in> set (df_interaction self)"
  shows "userId r < n_users self" and "itemId r < n_items self"
proof -
  have r: "r \<in> set (get_interaction table)" using assms init_Inr(2) by metis
  have "userId r \<le> Max (set (map userId (get_interaction table)))" using r by (intro Max_ge) auto
  then show "userId r < n_users self" using init_Inr(3)[OF assms(1)] by simp
  have "itemId r \<le> Max (set (map itemId (get_interaction table)))" using r by (intro Max_ge) auto
  then show "itemId r < n_items self" using init_Inr(4)[OF assms(1)] by simp
qed

lemma example_init: "init no_split Int64 example_table 2 False = Inr example_self"
  by code_simp

text \<open>
  C7: for every input dataset and every split policy (either branch, whatever
  \<^verbatim>\<open>train_test_split\<close> returns), a constructed recommender has train and test matrices of
  the same shape \<open>(n_users, n_items)\<close>, each one plus the maximum dense code of the whole
  normalised table, computed before the split.
\<close>

theorem C7_dimension_consistency:
  assumes "init train_test_split dtype table test_size random_split = Inr self"
  shows "coo_shape (train_mat self) = (n_users self, n_items self) \<and>
         coo_shape (test_mat self) = (n_users self, n_items self) \<and>
         n_users self = Max (set (map userId (get_interaction table))) + 1 \<and>
         n_items self = Max (set (map itemId (get_interaction table))) + 1"
proof -
  obtain train test where
    "coo_matrix dtype train (n_users self, n_items self) = Inr (train_mat self)"
    "coo_matrix dtype test (n_users self, n_items self) = Inr (test_mat self)"
    using process_interaction_Inr[OF init_Inr(5)[OF assms]] by blast
  then show ?thesis using coo_matrix_Inr(1) init_Inr(3,4)[OF assms] by metis
qed

text \<open>
  In the example, user code 1 and item code 1 occur in the test matrix only, and the train
  matrix still has two rows and three columns.
\<close>

theorem C7_dimension_consistency_witness:
  "init no_split Int64 example_table 2 False = Inr example_self \<and>
   (coo_shape (train_mat example_self) = (n_users example_self, n_items example_self) \<and>
    coo_shape (test_mat example_self) = (n_users example_self, n_items example_self) \<and>
    n_users example_self = Max (set (map userId (get_interaction example_table))) + 1 \<and>
    n_items example_self = Max (set (map itemId (get_interaction example_table))) + 1)"
  using example_init C7_dimension_consistency [OF example_init] by (rule conjI)

text \<open>
  Construction succeeds on every non-empty table with an \<^verbatim>\<open>int64\<close> interaction column
  and the contiguous split, and on no table with a \<^verbatim>\<open>float64\<close> interaction column.
\<close>

lemma astype_all_Int64: "astype_all Int64 xs = Inr (map (\<lambda>x. wrap_int32 (py_int x)) xs)"
  by (induction xs) (simp_all add: astype_int32_def Let_def)


lemma init_contiguous_returns:
  assumes "table \<noteq> []" and "1 < test_size"
  shows "\<exists>self. init train_test_split Int64 table test_size False = Inr self"
proof -
  let ?df = "get_interaction table"
  let ?nu = "Max (set (map userId ?df)) + 1" and ?ni = "Max (set (map itemId ?df)) + 1"
  let ?k = "nat (py_int test_size)"
  have ne: "?df \<noteq> []" using assms(1) get_interaction_columns(1)[of table] by auto
  have b: "userId r < ?nu \<and> itemId r < ?ni" if "r \<in> set ?df" for r
  proof -
    have "userId r \<le> Max (set (map userId ?df))" using that by (intro Max_ge) auto
    moreover have "itemId r \<le> Max (set (map itemId ?df))" using that by (intro Max_ge) auto
    ultimately show ?thesis by simp
  qed
  have sp: "split_rows train_test_split ?df test_size False = Inr (drop ?k ?df, take ?k ?df)"
    using assms(2) by (simp add: split_rows_def)
  have c1: "\<exists>m. coo_matrix Int64 (drop ?k ?df) (?nu, ?ni) = Inr m"
    using b by (auto simp: coo_matrix_def astype_all_Int64 dest!: in_set_dropD simp: not_le[symmetric])
  have c2: "\<exists>m. coo_matrix Int64 (take ?k ?df) (?nu, ?ni) = Inr m"
    using b by (auto simp: coo_matrix_def astype_all_Int64 dest!: in_set_takeD simp: not_le[symmetric])
  from c1 c2 obtain tm sm where
    "process_interaction train_test_split Int64 ?df ?nu ?ni test_size False = Inr (tm, sm)"
    by (auto simp: process_interaction_def sp)
  then show ?thesis using ne by (simp add: init_def Let_def)
qed

lemma init_Float64_fails: "init train_test_split Float64 table test_size random_split \<noteq> Inr self"
proof
  assume a: "init train_test_split Float64 table test_size random_split = Inr self"
  obtain train where "coo_matrix Float64 train (n_users self, n_items self) = Inr (train_mat self)"
    using process_interaction_Inr[OF init_Inr(5)[OF a]] by blast
  then show False using coo_matrix_Inr(5) by blast
qed

section \<open>Masking of the seen items\<close>

lemma seen_items_bound:
  assumes "init tts dt table ts rs = Inr self" and "i \<in> set (seen_items self user_id)"
  shows "i < n_items self"
  using assms init_codes_bound(2)[OF assms(1)] by (auto simp: seen_items_def)

lemma seen_items_history:
  assumes "init tts dt table ts rs = Inr self"
  shows "set (seen_items self user_id)
         = itemId ` {r \<in> set (get_interaction table). int (userId r) = user_id}"
  using init_Inr(2)[OF assms] by (auto simp: seen_items_def)

lemma unseen_result:
  assumes "init tts dt table ts rs = Inr self"
    and "predict_for_userId predict self user_id = Inr raw"
    and "length raw = n_items self"
  shows "predict_for_userId_unseen predict self user_id
         = Inr (set_at (seen_items self user_id) NInf raw)"
proof -
  have "\<not> (\<exists>i\<in>set (seen_items self user_id). length raw \<le> i)"
    using seen_items_bound[OF assms(1)] assms(3) by (auto simp: not_le)
  then show ?thesis using assms(2) by (simp add: predict_for_userId_unseen_def Let_def)
qed

text \<open>
  C8: for a constructed recommender and a scorer that returns one score per item code,
  \<open>predict_for_userId_unseen\<close> returns the scores in which every item code of a row of
  the full normalised table (train and test rows alike) whose user is \<open>user_id\<close> holds
  negative infinity, and every other item code keeps the raw score of \<open>predict\<close>.
\<close>

theorem C8_unseen_masking:
  assumes "init train_test_split dtype table test_size random_split = Inr self"
    and "predict_for_userId predict self user_id = Inr raw"
    and "length raw = n_items self"
  shows "set (seen_items self user_id)
           = itemId ` {r \<in> set (get_interaction table). int (userId r) = user_id} \<and>
         (\<exists>prediction. predict_for_userId_unseen predict self user_id = Inr prediction \<and>
            length prediction = n_items self \<and>
            (\<forall>i<n_items self.
               prediction ! i = (if i \<in> set (seen_items self user_id) then NInf else raw ! i)))"
  using seen_items_history[OF assms(1)] unseen_result[OF assms] assms(3)
  by (simp add: length_set_at nth_set_at)

theorem C8_unseen_masking_witness:
  "init no_split Int64 example_table 2 False = Inr example_self \<and>
   predict_for_userId example_scorer example_self 0 = Inr [Fin 5, Fin 1, Fin 7] \<and>
   length [Fin 5, Fin 1, Fin 7] = n_items example_self \<and>
   (set (seen_items example_self 0)
      = itemId ` {r \<in> set (get_interaction example_table). int (userId r) = 0} \<and>
    (\<exists>prediction. predict_for_userId_unseen example_scorer example_self 0 = Inr prediction \<and>
       length prediction = n_items example_self \<and>
       (\<forall>i<n_items example_self.
          prediction ! i
          = (if i \<in> set (seen_items example_self 0) then NInf else [Fin 5, Fin 1, Fin 7] ! i))))"
proof -
  have h2: "predict_for_userId example_scorer example_self 0 = Inr [Fin 5, Fin 1, Fin 7]"
    by (simp add: predict_for_userId_def)
  have h3: "length [Fin 5, Fin 1, Fin 7] = n_items example_self" by simp
  show ?thesis
    by (rule conjI [OF example_init
          conjI [OF h2 conjI [OF h3 C8_unseen_masking [OF example_init h2 h3]]]])
qed

lemma example_unseen:
  "predict_for_userId_unseen example_scorer example_self 0 = Inr [NInf, Fin 1, NInf]"
  by (simp add: predict_for_userId_unseen_def predict_for_userId_def seen_items_def set_at_def)

section \<open>The values stored in the matrices\<close>





text \<open>
  What the other columns do. An \<^verbatim>\<open>object\<close> column with a value whose truncation does
  not fit \<^verbatim>\<open>int32\<close> lets no recommender be constructed; an \<^verbatim>\<open>int64\<close> column stores the
  low 32 bits of its values.
\<close>

lemma object_overflow_example:
  "init no_split Object [(1::nat, 1::nat, 4294967297 / 2), (2, 2, 1), (3, 3, 1)] 2 False
   = Inl IntOverflow"
  by code_simp

lemma int64_wrap_example:
  "(case init no_split Int64 [(1::nat, 1::nat, 4294967297), (2, 2, 1), (3, 3, 1)] 2 False of
      Inl e \<Rightarrow> False
    | Inr self \<Rightarrow> coo_data (test_mat self) = [1, 1])"
  by code_simp

section \<open>The top-N selection\<close>

lemma map_of_keys:
  "map_of (map (\<lambda>k. (k, f k)) ks) i = (if i \<in> set ks then Some (f i) else None)"
  by (induction ks) auto

lemma argsort_permutation: "index_permutation argsort"
  by (auto simp: index_permutation_def argsort_def)

lemma top_n_result:
  assumes perm: "index_permutation part"
    and len: "length prediction = n"
    and lo: "- int n \<le> top_n" and hi: "top_n < int n"
  shows "\<exists>ks. distinct ks \<and> set ks \<subseteq> {..<n} \<and>
           int (length ks) = (if 0 \<le> top_n then top_n else int n + top_n) \<and>
           (case argpartition part (map xneg prediction) top_n of
              Inl e \<Rightarrow> False
            | Inr ap \<Rightarrow> slice_to top_n ap = ks)"
proof -
  let ?a = "map xneg prediction"
  let ?kth = "nat (if top_n < 0 then top_n + int n else top_n)"
  let ?ap = "part ?a ?kth"
  have kth: "?kth < length ?a" using len lo hi by auto
  have ap: "distinct ?ap" "set ?ap = {..<n}"
    using perm kth len by (auto simp: index_permutation_def)
  have lap: "length ?ap = n" using distinct_card[OF ap(1)] ap(2) by simp
  have arg: "argpartition part ?a top_n = Inr ?ap"
    using len lo hi by (simp add: argpartition_def Let_def)
  let ?ks = "slice_to top_n ?ap"
  have "distinct ?ks" using ap(1) by (cases "top_n < 0") (simp_all add: slice_to_def)
  moreover have "set ?ks \<subseteq> {..<n}"
  proof -
    have "set ?ks \<subseteq> set ?ap" by (simp add: slice_to_def set_take_subset)
    then show ?thesis using ap(2) by simp
  qed
  moreover have "int (length ?ks) = (if 0 \<le> top_n then top_n else int n + top_n)"
    using lap lo hi by (auto simp: slice_to_def)
  ultimately show ?thesis using arg by auto
qed

lemma top_n_unseen_result:
  assumes perm: "index_permutation part"
    and un: "predict_for_userId_unseen predict self user_id = Inr prediction"
    and len: "length prediction = n"
    and lo: "- int n \<le> top_n" and hi: "top_n < int n"
  shows "\<exists>ks. distinct ks \<and> set ks \<subseteq> {..<n} \<and>
           int (length ks) = (if 0 \<le> top_n then top_n else int n + top_n) \<and>
           predict_top_n_unseen part predict self user_id top_n
             = Inr (\<lambda>i. if i \<in> set ks then Some (prediction ! i) else None)"
proof -
  obtain ks where ks: "distinct ks" "set ks \<subseteq> {..<n}"
      "int (length ks) = (if 0 \<le> top_n then top_n else int n + top_n)"
    and c: "case argpartition part (map xneg prediction) top_n of
              Inl e \<Rightarrow> False | Inr ap \<Rightarrow> slice_to top_n ap = ks"
    using top_n_result[OF perm len lo hi] by blast
  obtain ap where ap: "argpartition part (map xneg prediction) top_n = Inr ap"
      "slice_to top_n ap = ks"
    using c by (auto split: sum.splits)
  have "\<not> (\<exists>key\<in>set ks. length prediction \<le> key)" using ks(2) len by (auto simp: not_le)
  then have "predict_top_n_unseen part predict self user_id top_n
        = Inr (map_of (map (\<lambda>key. (key, prediction ! key)) ks))"
    using un ap by (simp add: predict_top_n_unseen_def Let_def)
  moreover have "map_of (map (\<lambda>key. (key, prediction ! key)) ks)
                 = (\<lambda>i. if i \<in> set ks then Some (prediction ! i) else None)"
    by (rule ext) (simp add: map_of_keys)
  ultimately show ?thesis using ks by auto
qed

text \<open>
  C10: for a constructed recommender, a scorer that returns one score per item code, a
  user with fewer unseen item codes than \<open>top_n\<close>, and \<open>0 \<le> top_n < n_items\<close>, the mapping
  that \<open>predict_top_n_unseen\<close> returns has \<open>top_n\<close> keys and contains item codes the user
  has seen, with score negative infinity: at least \<open>top_n\<close> minus the number of unseen
  item codes of them. Masked items stay in the candidate pool.
\<close>

theorem C10_seen_items_returned:
  assumes "init train_test_split dtype table test_size random_split = Inr self"
    and "index_permutation part"
    and "predict_for_userId predict self user_id = Inr raw"
    and "length raw = n_items self"
    and "0 \<le> top_n" and "top_n < int (n_items self)"
    and "int (card ({..<n_items self} - set (seen_items self user_id))) < top_n"
  shows "\<exists>m. predict_top_n_unseen part predict self user_id top_n = Inr m \<and>
           int (card (dom m)) = top_n \<and>
           (\<exists>i\<in>set (seen_items self user_id). m i = Some NInf) \<and>
           top_n - int (card ({..<n_items self} - set (seen_items self user_id)))
             \<le> int (card {i \<in> set (seen_items self user_id). m i = Some NInf})"
proof -
  let ?n = "n_items self"
  let ?seen = "set (seen_items self user_id)"
  let ?p = "set_at (seen_items self user_id) NInf raw"
  have un: "predict_for_userId_unseen predict self user_id = Inr ?p"
    using unseen_result[OF assms(1,3,4)] .
  have len: "length ?p = ?n" using assms(4) by (simp add: length_set_at)
  have lo: "- int ?n \<le> top_n" using assms(5) by simp
  obtain ks where ks: "distinct ks" "set ks \<subseteq> {..<?n}" "int (length ks) = top_n"
    and m: "predict_top_n_unseen part predict self user_id top_n
            = Inr (\<lambda>i. if i \<in> set ks then Some (?p ! i) else None)"
    using top_n_unseen_result[OF assms(2) un len lo assms(6)] assms(5) by auto
  let ?m = "\<lambda>i. if i \<in> set ks then Some (?p ! i) else None"
  have dom: "dom ?m = set ks" by (auto simp: dom_def)
  have cardks: "int (card (set ks)) = top_n" using ks(1,3) by (simp add: distinct_card)
  have masked: "?m i = Some NInf" if "i \<in> set ks" "i \<in> ?seen" for i
  proof -
    have "i < length raw" using that(1) ks(2) assms(4) by auto
    then show ?thesis using that by (simp add: nth_set_at)
  qed
  have sub: "set ks - ({..<?n} - ?seen) \<subseteq> {i \<in> ?seen. ?m i = Some NInf}"
    using masked ks(2) by auto
  have "card (set ks) - card ({..<?n} - ?seen) \<le> card (set ks - ({..<?n} - ?seen))"
    by (rule diff_card_le_card_Diff) simp
  also have "\<dots> \<le> card {i \<in> ?seen. ?m i = Some NInf}"
    using sub by (intro card_mono) auto
  finally have cnt: "card (set ks) - card ({..<?n} - ?seen) \<le> card {i \<in> ?seen. ?m i = Some NInf}" .
  then have cnt': "top_n - int (card ({..<?n} - ?seen)) \<le> int (card {i \<in> ?seen. ?m i = Some NInf})"
    using cardks by linarith
  have "0 < card {i \<in> ?seen. ?m i = Some NInf}" using cnt' assms(7) by linarith
  then have "{i \<in> ?seen. ?m i = Some NInf} \<noteq> {}" by (metis card.empty less_numeral_extra(3))
  then have ex: "\<exists>i\<in>?seen. ?m i = Some NInf" by blast
  show ?thesis using m dom cardks ex cnt' by (intro exI[of _ ?m]) simp
qed





lemmas predict_eval_defs =
  predict_top_n_unseen_def predict_for_userId_unseen_def predict_for_userId_def seen_items_def
  set_at_def argpartition_def argsort_def slice_to_def



text \<open>
  In the example the scorer returns three scores: the call for the unknown user 5 and
  \<open>top_n = 2\<close> returns the two best items, and fails for \<open>top_n = 3\<close>.
\<close>

lemma example_unknown_user:
  "predict_top_n_unseen argsort example_scorer example_self 5 2 = Inr [0 \<mapsto> Fin 5, 2 \<mapsto> Fin 7]"
  "predict_top_n_unseen argsort example_scorer example_self 5 3 = Inl IndexOutOfBounds"
  by (simp_all add: predict_eval_defs numeral_2_eq_2)

lemma example_unseen_count:
  "int (card ({..<n_items example_self} - set (seen_items example_self 0))) < 2"
  by (simp add: seen_items_def lessThan_Suc numeral_3_eq_3)

theorem C10_seen_items_returned_witness:
  "init no_split Int64 example_table 2 False = Inr example_self \<and>
   index_permutation argsort \<and>
   predict_for_userId example_scorer example_self 0 = Inr [Fin 5, Fin 1, Fin 7] \<and>
   length [Fin 5, Fin 1, Fin 7] = n_items example_self \<and>
   (0::int) \<le> 2 \<and>
   2 < int (n_items example_self) \<and>
   int (card ({..<n_items example_self} - set (seen_items example_self 0))) < 2 \<and>
   (\<exists>m. predict_top_n_unseen argsort example_scorer example_self 0 2 = Inr m \<and>
      int (card (dom m)) = 2 \<and>
      (\<exists>i\<in>set (seen_items example_self 0). m i = Some NInf) \<and>
      2 - int (card ({..<n_items example_self} - set (seen_items example_self 0)))
        \<le> int (card {i \<in> set (seen_items example_self 0). m i = Some NInf}))"
proof -
  have h3: "predict_for_userId example_scorer example_self 0 = Inr [Fin 5, Fin 1, Fin 7]"
    by (simp add: predict_for_userId_def)
  have h4: "length [Fin 5, Fin 1, Fin 7] = n_items example_self" by simp
  have h5: "(0::int) \<le> 2" by simp
  have h6: "2 < int (n_items example_self)" by simp
  show ?thesis
    by (rule conjI [OF example_init conjI [OF argsort_permutation conjI [OF h3
          conjI [OF h4 conjI [OF h5 conjI [OF h6 conjI [OF example_unseen_count
            C10_seen_items_returned [OF example_init argsort_permutation h3 h4 h5 h6
              example_unseen_count]]]]]]]])
qed

lemma example_top_2:
  "predict_top_n_unseen argsort example_scorer example_self 0 2 = Inr [0 \<mapsto> NInf, 1 \<mapsto> Fin 1]"
  by (simp add: predict_eval_defs)


end
